theory Spec2Isabelle
  imports Main "HOL-Library.Word"
begin

unbundle bit_operations_syntax

section \<open>The attestation nonce log of x/qgb/keeper/keeper_attestation.go\<close>

subsection \<open>Data model\<close>

type_synonym uint64 = "64 word"
type_synonym bytes = "8 word list"

text \<open>
  A Go panic is a value: either \<open>panic("message")\<close> or \<open>panic(err)\<close> with the error of the
  codec.
\<close>

datatype panic = Panic string | PanicErr string

text \<open>The ordinary (returned) errors of the file: only \<open>types.ErrUnmarshalllAttestation\<close>.\<close>

datatype error = ErrUnmarshalllAttestation

text \<open>
  Modelled from the spec: the interface \<open>types.AttestationRequestI\<close> is declared outside
  the files at hand. Section 3 of the specification describes it as a tagged variant with at
  least the tags "validator-set update" and "data commitment", each carrying its own payload
  and identified by a \<open>uint64\<close> nonce; the payload is kept as uninterpreted bytes.
\<close>

datatype AttestationRequestI =
    Valset uint64 bytes
  | DataCommitment uint64 bytes

fun GetNonce :: "AttestationRequestI \<Rightarrow> uint64" where
  "GetNonce (Valset n p) = n"
| "GetNonce (DataCommitment n p) = n"

text \<open>
  Modelled from the spec: the key constants \<open>types.LatestAttestationtNonce\<close>,
  \<open>types.LastPrunedAttestationNonce\<close>, \<open>types.LastUnbondingNonce\<close> and the function
  \<open>types.GetAttestationKey\<close> are declared outside the files at hand. Section 4.1 ("Key
  derivation") and section 6 ("Persisted layout") require that the per-nonce attestation keys
  and the counter keys occupy disjoint, collision-free key ranges, each key derived
  deterministically from its nonce; a datatype of keys says exactly that.
\<close>

datatype key =
    AttestationKey uint64
  | LatestAttestationtNonce
  | LastPrunedAttestationNonce
  | LastUnbondingNonce

definition GetAttestationKey :: "uint64 \<Rightarrow> key" where
  "GetAttestationKey nonce = AttestationKey nonce"

text \<open>
  Modelled from the spec: \<open>types.UInt64Bytes\<close> and \<open>UInt64FromBytes\<close> are declared outside
  the files at hand. The counters are \<open>uint64\<close> values (section 3) persisted as bytes; they
  are modelled as the usual fixed-width big-endian encoding: eight bytes, most significant
  first. Reading fewer than eight bytes is an index-out-of-range panic, further bytes are
  ignored.
\<close>

definition UInt64Bytes :: "uint64 \<Rightarrow> bytes" where
  "UInt64Bytes n =
     [ucast (drop_bit 56 n), ucast (drop_bit 48 n), ucast (drop_bit 40 n),
      ucast (drop_bit 32 n), ucast (drop_bit 24 n), ucast (drop_bit 16 n),
      ucast (drop_bit 8 n), ucast n]"

fun UInt64FromBytes :: "bytes \<Rightarrow> panic + uint64" where
  "UInt64FromBytes (b0 # b1 # b2 # b3 # b4 # b5 # b6 # b7 # rest) =
     Inr (ucast b7 OR push_bit 8 (ucast b6) OR push_bit 16 (ucast b5) OR
          push_bit 24 (ucast b4) OR push_bit 32 (ucast b3) OR push_bit 40 (ucast b2) OR
          push_bit 48 (ucast b1) OR push_bit 56 (ucast b0))"
| "UInt64FromBytes s = Inl (Panic ''index out of range'')"

text \<open>
  The codec \<open>k.cdc\<close> is a field of the keeper; its two methods used here return an error or a
  result. The store key \<open>k.storeKey\<close> selects this module's store, which is the only store
  modelled.
\<close>

record codec =
  MarshalInterface :: "AttestationRequestI \<Rightarrow> string + bytes"
  UnmarshalInterface :: "bytes \<Rightarrow> string + AttestationRequestI"

record Keeper =
  cdc :: codec

text \<open>
  The key-value store of the context: \<open>Has\<close>, \<open>Get\<close> (\<open>nil\<close> is \<open>None\<close>), \<open>Set\<close> and
  \<open>Delete\<close> on byte-string keys. The context also carries the event manager, the list of
  events emitted so far; the one event of this file is the attestation-request event with the
  module name and the nonce as attributes.
\<close>

type_synonym KVStore = "key \<rightharpoonup> bytes"

datatype event = EventTypeAttestationRequest uint64

record Context =
  KVStore :: KVStore
  EventManager :: "event list"

definition Has :: "KVStore \<Rightarrow> key \<Rightarrow> bool" where
  "Has store k = (store k \<noteq> None)"

definition Get :: "KVStore \<Rightarrow> key \<Rightarrow> bytes option" where
  "Get store k = store k"

definition Set :: "KVStore \<Rightarrow> key \<Rightarrow> bytes \<Rightarrow> KVStore" where
  "Set store k b = store(k \<mapsto> b)"

definition Delete :: "KVStore \<Rightarrow> key \<Rightarrow> KVStore" where
  "Delete store k = store(k := None)"

subsection \<open>The operations of the keeper\<close>

text \<open>
  A mutating operation returns \<open>Inr\<close> the new context, or \<open>Inl\<close> the panic together with the
  context as it is at the point where the panic is raised.
\<close>

definition StoreAttestation ::
  "Keeper \<Rightarrow> Context \<Rightarrow> AttestationRequestI \<Rightarrow> (panic \<times> Context) + Context" where
  "StoreAttestation k ctx at =
     (let nonce = GetNonce at;
          key = GetAttestationKey nonce;
          store = KVStore ctx
      in if Has store key
         then Inl (Panic ''trying to overwrite existing attestation request'', ctx)
         else (case MarshalInterface (cdc k) at of
                 Inl err \<Rightarrow> Inl (PanicErr err, ctx)
               | Inr b \<Rightarrow> Inr (ctx\<lparr>KVStore := Set store key b\<rparr>)))"

definition CheckLatestAttestationNonce :: "Context \<Rightarrow> bool" where
  "CheckLatestAttestationNonce ctx = Has (KVStore ctx) LatestAttestationtNonce"

definition GetLatestAttestationNonce :: "Context \<Rightarrow> panic + uint64" where
  "GetLatestAttestationNonce ctx =
     (case Get (KVStore ctx) LatestAttestationtNonce of
        None \<Rightarrow> Inl (Panic ''nil LatestAttestationNonce'')
      | Some bytes \<Rightarrow> UInt64FromBytes bytes)"

definition SetLatestAttestationNonce ::
  "Context \<Rightarrow> uint64 \<Rightarrow> (panic \<times> Context) + Context" where
  "SetLatestAttestationNonce ctx nonce =
     (let set = ctx\<lparr>KVStore := Set (KVStore ctx) LatestAttestationtNonce (UInt64Bytes nonce)\<rparr>
      in if CheckLatestAttestationNonce ctx
         then (case GetLatestAttestationNonce ctx of
                 Inl p \<Rightarrow> Inl (p, ctx)
               | Inr latest \<Rightarrow>
                   if latest + 1 \<noteq> nonce
                   then Inl (Panic ''not incrementing latest attestation nonce correctly'', ctx)
                   else Inr set)
         else Inr set)"

definition SetAttestationRequest ::
  "Keeper \<Rightarrow> Context \<Rightarrow> AttestationRequestI \<Rightarrow> (panic \<times> Context) + (error option \<times> Context)" where
  "SetAttestationRequest k ctx at =
     (case StoreAttestation k ctx at of
        Inl pc \<Rightarrow> Inl pc
      | Inr ctx1 \<Rightarrow>
          (case SetLatestAttestationNonce ctx1 (GetNonce at) of
             Inl pc \<Rightarrow> Inl pc
           | Inr ctx2 \<Rightarrow>
               Inr (None,
                    ctx2\<lparr>EventManager :=
                           EventManager ctx2 @ [EventTypeAttestationRequest (GetNonce at)]\<rparr>)))"

definition CheckLastPrunedAttestationNonce :: "Context \<Rightarrow> bool" where
  "CheckLastPrunedAttestationNonce ctx = Has (KVStore ctx) LatestAttestationtNonce"

definition GetLastPrunedAttestationNonce :: "Context \<Rightarrow> panic + uint64" where
  "GetLastPrunedAttestationNonce ctx =
     (case Get (KVStore ctx) LastPrunedAttestationNonce of
        None \<Rightarrow> Inl (Panic ''nil last pruned attestation nonce'')
      | Some bytes \<Rightarrow> UInt64FromBytes bytes)"

definition SetLastPrunedAttestationNonce :: "Context \<Rightarrow> uint64 \<Rightarrow> Context" where
  "SetLastPrunedAttestationNonce ctx nonce =
     ctx\<lparr>KVStore := Set (KVStore ctx) LastPrunedAttestationNonce (UInt64Bytes nonce)\<rparr>"

definition CheckLastUnbondingNonce :: "Context \<Rightarrow> bool" where
  "CheckLastUnbondingNonce ctx = Has (KVStore ctx) LastUnbondingNonce"

definition GetLastUnbondingNonce :: "Context \<Rightarrow> panic + uint64" where
  "GetLastUnbondingNonce ctx =
     (case Get (KVStore ctx) LastUnbondingNonce of
        None \<Rightarrow> Inl (Panic ''nil last unbonding nonce'')
      | Some bytes \<Rightarrow> UInt64FromBytes bytes)"

definition SetLastUnbondingNonce :: "Context \<Rightarrow> uint64 \<Rightarrow> Context" where
  "SetLastUnbondingNonce ctx nonce =
     ctx\<lparr>KVStore := Set (KVStore ctx) LastUnbondingNonce (UInt64Bytes nonce)\<rparr>"

definition GetAttestationByNonce ::
  "Keeper \<Rightarrow> Context \<Rightarrow> uint64 \<Rightarrow> AttestationRequestI option \<times> bool \<times> error option" where
  "GetAttestationByNonce k ctx nonce =
     (case Get (KVStore ctx) (GetAttestationKey nonce) of
        None \<Rightarrow> (None, False, None)
      | Some bz \<Rightarrow>
          (case UnmarshalInterface (cdc k) bz of
             Inl err \<Rightarrow> (None, False, Some ErrUnmarshalllAttestation)
           | Inr at \<Rightarrow> (Some at, True, None)))"

definition DeleteAttestation :: "Context \<Rightarrow> uint64 \<Rightarrow> Context" where
  "DeleteAttestation ctx nonce =
     (let key = GetAttestationKey nonce;
          store = KVStore ctx
      in if \<not> Has store key then ctx
         else ctx\<lparr>KVStore := Delete store key\<rparr>)"

subsection \<open>Sequences of operations\<close>

text \<open>
  A run of \<open>SetAttestationRequest\<close> calls, one after the other on the context the previous
  call returned; the first panic ends the run.
\<close>

fun appends ::
  "Keeper \<Rightarrow> Context \<Rightarrow> AttestationRequestI list \<Rightarrow> (panic \<times> Context) + Context" where
  "appends k ctx [] = Inr ctx"
| "appends k ctx (at # ats) =
     (case SetAttestationRequest k ctx at of
        Inl pc \<Rightarrow> Inl pc
      | Inr (err, ctx') \<Rightarrow> appends k ctx' ats)"

text \<open>
  Modelled from the spec: the pruning composition (\<open>PruneUpTo\<close> in section 8) is not a
  function of the files at hand. Section 4.1 describes it: invoke \<open>DeleteAttestation\<close> for
  every nonce in \<open>[LastPrunedNonce+1, target]\<close>, then advance \<open>LastPrunedNonce\<close> to
  \<open>target\<close>; before any pruning the range starts at 1 (invariant I1). The stored counter is
  read from its own key; unreadable counter bytes are the panic of \<open>UInt64FromBytes\<close>.
\<close>

definition DeleteRange :: "Context \<Rightarrow> nat \<Rightarrow> nat \<Rightarrow> Context" where
  "DeleteRange ctx lo hi = fold (\<lambda>n c. DeleteAttestation c (of_nat n)) [lo ..< Suc hi] ctx"

definition PruneUpTo :: "Context \<Rightarrow> uint64 \<Rightarrow> panic + Context" where
  "PruneUpTo ctx target =
     (case Get (KVStore ctx) LastPrunedAttestationNonce of
        None \<Rightarrow> Inr (SetLastPrunedAttestationNonce (DeleteRange ctx 1 (unat target)) target)
      | Some bytes \<Rightarrow>
          (case UInt64FromBytes bytes of
             Inl p \<Rightarrow> Inl p
           | Inr pruned \<Rightarrow>
               Inr (SetLastPrunedAttestationNonce
                      (DeleteRange ctx (unat pruned + 1) (unat target)) target)))"

text \<open>
  Modelled from the spec: the codec behind \<open>k.cdc\<close> is outside the files at hand. Section 6
  asks of it that it encodes a tagged variant to bytes and decodes bytes back to the same
  variant, preserving the tag, and that decoding signals an unrecognized or corrupt payload
  as an error. The model writes one tag byte, the nonce and the payload.
\<close>

definition MarshalInterface_spec :: "AttestationRequestI \<Rightarrow> string + bytes" where
  "MarshalInterface_spec at =
     (case at of
        Valset n p \<Rightarrow> Inr (0 # UInt64Bytes n @ p)
      | DataCommitment n p \<Rightarrow> Inr (1 # UInt64Bytes n @ p))"

definition UnmarshalInterface_spec :: "bytes \<Rightarrow> string + AttestationRequestI" where
  "UnmarshalInterface_spec bz =
     (case bz of
        [] \<Rightarrow> Inl ''corrupt payload''
      | tag # rest \<Rightarrow>
          (case UInt64FromBytes rest of
             Inl p \<Rightarrow> Inl ''corrupt payload''
           | Inr n \<Rightarrow>
               if tag = 0 then Inr (Valset n (drop 8 rest))
               else if tag = 1 then Inr (DataCommitment n (drop 8 rest))
               else Inl ''unrecognized variant''))"

definition cdc_spec :: codec where
  "cdc_spec = \<lparr>MarshalInterface = MarshalInterface_spec,
               UnmarshalInterface = UnmarshalInterface_spec\<rparr>"

definition keeper_spec :: Keeper where
  "keeper_spec = \<lparr>cdc = cdc_spec\<rparr>"

text \<open>The freshly initialized log: an empty store, no event emitted.\<close>

definition fresh :: Context where
  "fresh = \<lparr>KVStore = Map.empty, EventManager = []\<rparr>"

subsection \<open>The invariant I1\<close>

definition stored_nonces :: "Context \<Rightarrow> uint64 set" where
  "stored_nonces ctx = {n. Has (KVStore ctx) (GetAttestationKey n)}"

text \<open>
  I1 of section 3: the nonces of the stored attestations are exactly the range from
  \<open>LastPrunedNonce + 1\<close> (from 1 before any pruning) to \<open>LatestNonce\<close>; nothing is stored
  before the first append.
\<close>

definition I1 :: "Context \<Rightarrow> bool" where
  "I1 ctx =
     (case Get (KVStore ctx) LatestAttestationtNonce of
        None \<Rightarrow> stored_nonces ctx = {}
      | Some lb \<Rightarrow>
          (case UInt64FromBytes lb of
             Inl p \<Rightarrow> False
           | Inr latest \<Rightarrow>
               (case Get (KVStore ctx) LastPrunedAttestationNonce of
                  None \<Rightarrow> stored_nonces ctx = {n. 0 < n \<and> n \<le> latest}
                | Some pb \<Rightarrow>
                    (case UInt64FromBytes pb of
                       Inl p \<Rightarrow> False
                     | Inr pruned \<Rightarrow> stored_nonces ctx = {n. pruned < n \<and> n \<le> latest}))))"

text \<open>
  The states of the log when it is used as section 4.1 prescribes: the first append carries
  nonce 1, no nonce wraps around \<open>uint64\<close>, and attestations are removed only by the pruning
  composition, with a target at or above the last pruned nonce and strictly below the latest
  nonce.
\<close>

inductive log_state :: "Keeper \<Rightarrow> Context \<Rightarrow> bool" for k :: Keeper where
  log_fresh: "log_state k fresh"
| log_append:
    "log_state k ctx \<Longrightarrow> SetAttestationRequest k ctx at = Inr (err, ctx') \<Longrightarrow>
     GetNonce at \<noteq> 0 \<Longrightarrow> (\<not> CheckLatestAttestationNonce ctx \<longrightarrow> GetNonce at = 1) \<Longrightarrow>
     log_state k ctx'"
| log_prune:
    "log_state k ctx \<Longrightarrow> GetLatestAttestationNonce ctx = Inr latest \<Longrightarrow> target < latest \<Longrightarrow>
     (\<forall>pruned. GetLastPrunedAttestationNonce ctx = Inr pruned \<longrightarrow> pruned \<le> target) \<Longrightarrow>
     PruneUpTo ctx target = Inr ctx' \<Longrightarrow> log_state k ctx'"

subsection \<open>Concrete states\<close>

text \<open>
  The context a successful \<open>SetAttestationRequest\<close> returns: the attestation stored under
  its key, the latest nonce set, one more event.
\<close>

definition appended :: "Context \<Rightarrow> AttestationRequestI \<Rightarrow> bytes \<Rightarrow> Context" where
  "appended ctx at b =
     \<lparr>KVStore = (KVStore ctx)(AttestationKey (GetNonce at) \<mapsto> b,
                                LatestAttestationtNonce \<mapsto> UInt64Bytes (GetNonce at)),
      EventManager = EventManager ctx @ [EventTypeAttestationRequest (GetNonce at)]\<rparr>"

text \<open>The log after the validator-set update with nonce 1 has been appended to the fresh log.\<close>

definition ctx1 :: Context where
  "ctx1 = \<lparr>KVStore = [AttestationKey 1 \<mapsto> [0, 0, 0, 0, 0, 0, 0, 0, 1],
                       LatestAttestationtNonce \<mapsto> [0, 0, 0, 0, 0, 0, 0, 1]],
           EventManager = [EventTypeAttestationRequest 1]\<rparr>"

text \<open>A store whose entry for nonce 7 holds bytes that do not decode.\<close>

definition ctx_corrupt :: Context where
  "ctx_corrupt = \<lparr>KVStore = [AttestationKey 7 \<mapsto> [9, 9]], EventManager = []\<rparr>"

text \<open>The log after appends with the nonces 1, 2 and with the nonces 1, 2, 3.\<close>

definition ctx2 :: Context where
  "ctx2 = appended ctx1 (DataCommitment 2 [7]) [1, 0, 0, 0, 0, 0, 0, 0, 2, 7]"

definition ctx3 :: Context where
  "ctx3 = appended ctx2 (Valset 3 []) [0, 0, 0, 0, 0, 0, 0, 0, 3]"

text \<open>
  The invariant carried through the induction: I1, together with I4 (the last pruned nonce is
  strictly below the latest nonce) and the absence of the pruning counter before the first
  append.
\<close>

definition log_inv :: "Context \<Rightarrow> bool" where
  "log_inv ctx =
     (I1 ctx \<and>
      (case Get (KVStore ctx) LatestAttestationtNonce of
         None \<Rightarrow> Get (KVStore ctx) LastPrunedAttestationNonce = None
       | Some lb \<Rightarrow>
           (\<forall>latest pruned. GetLatestAttestationNonce ctx = Inr latest \<and>
              GetLastPrunedAttestationNonce ctx = Inr pruned \<longrightarrow> pruned < latest)))"

text \<open>The log with the nonces 1, 2, 3 after pruning up to nonce 1.\<close>

definition ctx3_pruned :: Context where
  "ctx3_pruned = SetLastPrunedAttestationNonce (DeleteRange ctx3 1 1) 1"

text \<open>The log after a first append that carries nonce 5.\<close>

definition ctx_from5 :: Context where
  "ctx_from5 = appended fresh (Valset 5 []) [0, 0, 0, 0, 0, 0, 0, 0, 5]"

section \<open>Properties\<close>

subsection \<open>The counter encoding and the store\<close>

lemma bytes_to_uint64:
  "ucast (ucast n :: 8 word) OR push_bit 8 (ucast (ucast (drop_bit 8 n) :: 8 word)) OR
   push_bit 16 (ucast (ucast (drop_bit 16 n) :: 8 word)) OR
   push_bit 24 (ucast (ucast (drop_bit 24 n) :: 8 word)) OR
   push_bit 32 (ucast (ucast (drop_bit 32 n) :: 8 word)) OR
   push_bit 40 (ucast (ucast (drop_bit 40 n) :: 8 word)) OR
   push_bit 48 (ucast (ucast (drop_bit 48 n) :: 8 word)) OR
   push_bit 56 (ucast (ucast (drop_bit 56 n) :: 8 word)) = (n :: uint64)" (is "?l = n")
proof (rule bit_eqI)
  fix i assume "possible_bit TYPE(64 word) i"
  then have "i < 64" by simp
  then consider "i < 8" | "8 \<le> i \<and> i < 16" | "16 \<le> i \<and> i < 24" | "24 \<le> i \<and> i < 32"
    | "32 \<le> i \<and> i < 40" | "40 \<le> i \<and> i < 48" | "48 \<le> i \<and> i < 56" | "56 \<le> i \<and> i < 64"
    by linarith
  then show "bit ?l i = bit n i"
  proof cases
    case 1 then show ?thesis by (auto simp add: bit_simps cong: conj_cong)
  next
    case 2 then show ?thesis by (auto simp add: bit_simps cong: conj_cong)
  next
    case 3 then show ?thesis by (auto simp add: bit_simps cong: conj_cong)
  next
    case 4 then show ?thesis by (auto simp add: bit_simps cong: conj_cong)
  next
    case 5 then show ?thesis by (auto simp add: bit_simps cong: conj_cong)
  next
    case 6 then show ?thesis by (auto simp add: bit_simps cong: conj_cong)
  next
    case 7 then show ?thesis by (auto simp add: bit_simps cong: conj_cong)
  next
    case 8 then show ?thesis by (auto simp add: bit_simps cong: conj_cong)
  qed
qed

lemma UInt64FromBytes_UInt64Bytes_append [simp]:
  "UInt64FromBytes (UInt64Bytes n @ rest) = Inr n"
  by (simp add: UInt64Bytes_def bytes_to_uint64)

lemma UInt64FromBytes_UInt64Bytes [simp]: "UInt64FromBytes (UInt64Bytes n) = Inr n"
  using UInt64FromBytes_UInt64Bytes_append [of n "[]"] by simp

lemma length_UInt64Bytes [simp]: "length (UInt64Bytes n) = 8"
  by (simp add: UInt64Bytes_def)

lemma UInt64Bytes_inject [simp]: "UInt64Bytes m = UInt64Bytes n \<longleftrightarrow> m = n"
proof
  assume "UInt64Bytes m = UInt64Bytes n"
  then have "UInt64FromBytes (UInt64Bytes m) = UInt64FromBytes (UInt64Bytes n)" by simp
  then show "m = n" by simp
qed simp

lemmas store_defs = Has_def Get_def Set_def Delete_def GetAttestationKey_def

subsection \<open>One call of \<open>SetAttestationRequest\<close>\<close>

lemma Check_Get_Latest_frame [simp]:
  "CheckLatestAttestationNonce (ctx\<lparr>KVStore := (KVStore ctx)(AttestationKey n \<mapsto> b)\<rparr>) =
     CheckLatestAttestationNonce ctx"
  "GetLatestAttestationNonce (ctx\<lparr>KVStore := (KVStore ctx)(AttestationKey n \<mapsto> b)\<rparr>) =
     GetLatestAttestationNonce ctx"
  by (simp_all add: CheckLatestAttestationNonce_def GetLatestAttestationNonce_def store_defs)

lemma SetAttestationRequest_unfold:
  "SetAttestationRequest k ctx at =
     (if KVStore ctx (AttestationKey (GetNonce at)) \<noteq> None
      then Inl (Panic ''trying to overwrite existing attestation request'', ctx)
      else case MarshalInterface (cdc k) at of
             Inl err \<Rightarrow> Inl (PanicErr err, ctx)
           | Inr b \<Rightarrow>
               if CheckLatestAttestationNonce ctx
               then (case GetLatestAttestationNonce ctx of
                       Inl p \<Rightarrow>
                         Inl (p, ctx\<lparr>KVStore := (KVStore ctx)(AttestationKey (GetNonce at) \<mapsto> b)\<rparr>)
                     | Inr latest \<Rightarrow>
                         if latest + 1 \<noteq> GetNonce at
                         then Inl (Panic ''not incrementing latest attestation nonce correctly'',
                                   ctx\<lparr>KVStore := (KVStore ctx)(AttestationKey (GetNonce at) \<mapsto> b)\<rparr>)
                         else Inr (None, appended ctx at b))
               else Inr (None, appended ctx at b))"
  by (simp add: SetAttestationRequest_def StoreAttestation_def SetLatestAttestationNonce_def
      store_defs Let_def appended_def split: sum.splits)

lemma SetAttestationRequest_Inr:
  "SetAttestationRequest k ctx at = Inr r \<longleftrightarrow>
     KVStore ctx (AttestationKey (GetNonce at)) = None \<and>
     (CheckLatestAttestationNonce ctx \<longrightarrow>
        (\<exists>latest. GetLatestAttestationNonce ctx = Inr latest \<and> latest + 1 = GetNonce at)) \<and>
     (\<exists>b. MarshalInterface (cdc k) at = Inr b \<and> r = (None, appended ctx at b))"
  by (auto simp: SetAttestationRequest_unfold split: sum.splits)

lemma GetLatest_appended [simp]:
  "GetLatestAttestationNonce (appended ctx at b) = Inr (GetNonce at)"
  "CheckLatestAttestationNonce (appended ctx at b)"
  by (simp_all add: GetLatestAttestationNonce_def CheckLatestAttestationNonce_def appended_def
      store_defs)

lemma keeper_spec_simps [simp]:
  "MarshalInterface (cdc keeper_spec) = MarshalInterface_spec"
  "UnmarshalInterface (cdc keeper_spec) = UnmarshalInterface_spec"
  by (simp_all add: keeper_spec_def cdc_spec_def)

lemma append1: "SetAttestationRequest keeper_spec fresh (Valset 1 []) = Inr (None, ctx1)"
  by (simp add: SetAttestationRequest_unfold fresh_def CheckLatestAttestationNonce_def store_defs
      MarshalInterface_spec_def appended_def ctx1_def UInt64Bytes_def)

subsection \<open>C8: \<open>DeleteAttestation\<close> touches one entry only\<close>

text \<open>
  Claim C8. For every nonce \<open>n\<close>, \<open>DeleteAttestation\<close> removes the stored entry for \<open>n\<close> when it
  is present and changes nothing when it is absent; it cannot fail. In both cases the latest
  nonce counter, the last pruned nonce counter, every attestation entry with another nonce
  (indeed every other key of the store) and the emitted events are unchanged.
\<close>

theorem DeleteAttestation_frame:
  "KVStore (DeleteAttestation ctx n) (GetAttestationKey n) = None \<and>
   (KVStore ctx (GetAttestationKey n) = None \<longrightarrow> DeleteAttestation ctx n = ctx) \<and>
   (\<forall>key. key \<noteq> GetAttestationKey n \<longrightarrow> KVStore (DeleteAttestation ctx n) key = KVStore ctx key) \<and>
   (\<forall>m. m \<noteq> n \<longrightarrow>
      KVStore (DeleteAttestation ctx n) (GetAttestationKey m) = KVStore ctx (GetAttestationKey m)) \<and>
   KVStore (DeleteAttestation ctx n) LatestAttestationtNonce = KVStore ctx LatestAttestationtNonce \<and>
   KVStore (DeleteAttestation ctx n) LastPrunedAttestationNonce =
     KVStore ctx LastPrunedAttestationNonce \<and>
   CheckLatestAttestationNonce (DeleteAttestation ctx n) = CheckLatestAttestationNonce ctx \<and>
   GetLatestAttestationNonce (DeleteAttestation ctx n) = GetLatestAttestationNonce ctx \<and>
   CheckLastPrunedAttestationNonce (DeleteAttestation ctx n) = CheckLastPrunedAttestationNonce ctx \<and>
   GetLastPrunedAttestationNonce (DeleteAttestation ctx n) = GetLastPrunedAttestationNonce ctx \<and>
   EventManager (DeleteAttestation ctx n) = EventManager ctx"
  by (simp add: DeleteAttestation_def store_defs Let_def CheckLatestAttestationNonce_def
      GetLatestAttestationNonce_def CheckLastPrunedAttestationNonce_def
      GetLastPrunedAttestationNonce_def)

theorem DeleteAttestation_frame_witness:
  "KVStore ctx1 (GetAttestationKey 2) = None \<and> DeleteAttestation ctx1 2 = ctx1 \<and>
   LatestAttestationtNonce \<noteq> GetAttestationKey 1 \<and>
   KVStore (DeleteAttestation ctx1 1) LatestAttestationtNonce = KVStore ctx1 LatestAttestationtNonce \<and>
   KVStore (DeleteAttestation ctx1 1) (GetAttestationKey 1) = None \<and>
   KVStore ctx1 (GetAttestationKey 1) \<noteq> None"
  using DeleteAttestation_frame [of ctx1 2] DeleteAttestation_frame [of ctx1 1]
  by (simp add: ctx1_def store_defs)

subsection \<open>C6: \<open>GetAttestationByNonce\<close> reports absence and decode errors as results\<close>

text \<open>
  Claim C6. \<open>GetAttestationByNonce\<close> always returns a result (it has no panic): when the key of
  the nonce is absent from the store, whatever the reason, it returns
  \<open>(nil, false, nil)\<close>; when the key is present and the stored bytes fail to decode it
  returns the decode error \<open>ErrUnmarshalllAttestation\<close>; when decoding succeeds it returns the
  attestation with \<open>found = true\<close> and no error. A deleted nonce and any nonce of the fresh
  log are absent.
\<close>

theorem GetAttestationByNonce_cases:
  "(KVStore ctx (GetAttestationKey nonce) = None \<longrightarrow>
      GetAttestationByNonce k ctx nonce = (None, False, None)) \<and>
   (\<forall>bz. KVStore ctx (GetAttestationKey nonce) = Some bz \<longrightarrow>
      (\<forall>err. UnmarshalInterface (cdc k) bz = Inl err \<longrightarrow>
         GetAttestationByNonce k ctx nonce = (None, False, Some ErrUnmarshalllAttestation)) \<and>
      (\<forall>at. UnmarshalInterface (cdc k) bz = Inr at \<longrightarrow>
         GetAttestationByNonce k ctx nonce = (Some at, True, None))) \<and>
   GetAttestationByNonce k (DeleteAttestation ctx nonce) nonce = (None, False, None) \<and>
   GetAttestationByNonce k fresh nonce = (None, False, None)"
  by (simp add: GetAttestationByNonce_def DeleteAttestation_def store_defs Let_def fresh_def)

theorem GetAttestationByNonce_cases_witness:
  "KVStore ctx1 (GetAttestationKey 2) = None \<and>
   GetAttestationByNonce keeper_spec ctx1 2 = (None, False, None) \<and>
   KVStore ctx_corrupt (GetAttestationKey 7) = Some [9, 9] \<and>
   UnmarshalInterface (cdc keeper_spec) [9, 9] = Inl ''corrupt payload'' \<and>
   GetAttestationByNonce keeper_spec ctx_corrupt 7 = (None, False, Some ErrUnmarshalllAttestation) \<and>
   KVStore ctx1 (GetAttestationKey 1) = Some [0, 0, 0, 0, 0, 0, 0, 0, 1] \<and>
   UnmarshalInterface (cdc keeper_spec) [0, 0, 0, 0, 0, 0, 0, 0, 1] = Inr (Valset 1 []) \<and>
   GetAttestationByNonce keeper_spec ctx1 1 = (Some (Valset 1 []), True, None)"
  using GetAttestationByNonce_cases [of ctx1 2 keeper_spec]
    GetAttestationByNonce_cases [of ctx_corrupt 7 keeper_spec]
    GetAttestationByNonce_cases [of ctx1 1 keeper_spec]
  by (simp add: ctx1_def ctx_corrupt_def store_defs UnmarshalInterface_spec_def)

subsection \<open>C10: the error result of \<open>SetAttestationRequest\<close> is always nil\<close>

text \<open>
  Claim C10. Every execution of \<open>SetAttestationRequest\<close> that does not panic returns a nil
  error: every failure of an append is a panic, never a returned error.
\<close>

theorem SetAttestationRequest_error_nil:
  "SetAttestationRequest k ctx at = Inr (err, ctx') \<Longrightarrow> err = None"
  by (auto simp add: SetAttestationRequest_Inr)

theorem SetAttestationRequest_error_nil_witness:
  "SetAttestationRequest keeper_spec fresh (Valset 1 []) = Inr (None, ctx1) \<and>
   (None :: error option) = None"
  using SetAttestationRequest_error_nil [of keeper_spec fresh "Valset 1 []" None ctx1] append1
  by simp

subsection \<open>C1: the existence check of the last pruned nonce\<close>

text \<open>
  Claim C1. As long as nothing has been pruned the last pruned nonce counter is absent and
  \<open>CheckLastPrunedAttestationNonce\<close> reports \<open>false\<close>. The claim holds on the fresh log, and
  the counter is indeed absent after an append; but \<open>CheckLastPrunedAttestationNonce\<close> looks
  up the key of the latest nonce, so after the first append it reports \<open>true\<close>, and
  \<open>GetLastPrunedAttestationNonce\<close>, called as its comment asks after a successful check,
  panics. The theorem evaluates the code there.
\<close>

theorem CheckLastPruned_after_append:
  "SetAttestationRequest keeper_spec fresh (Valset 1 []) = Inr (None, ctx1) \<and>
   KVStore ctx1 LastPrunedAttestationNonce = None \<and>
   CheckLastPrunedAttestationNonce ctx1 = True \<and>
   GetLastPrunedAttestationNonce ctx1 = Inl (Panic ''nil last pruned attestation nonce'') \<and>
   CheckLastPrunedAttestationNonce fresh = False \<and>
   CheckLatestAttestationNonce fresh = False"
  using append1
  by (simp add: ctx1_def fresh_def CheckLastPrunedAttestationNonce_def
      CheckLatestAttestationNonce_def GetLastPrunedAttestationNonce_def store_defs)

subsection \<open>Entries persist\<close>


lemma appended_other [simp]:
  "KVStore (appended ctx at b) (AttestationKey n) =
     (if n = GetNonce at then Some b else KVStore ctx (AttestationKey n))"
  "KVStore (appended ctx at b) LastPrunedAttestationNonce = KVStore ctx LastPrunedAttestationNonce"
  "KVStore (appended ctx at b) LatestAttestationtNonce = Some (UInt64Bytes (GetNonce at))"
  by (simp_all add: appended_def)

lemma SetAttestationRequest_Inl:
  "SetAttestationRequest k ctx at = Inl (p, ctx') \<Longrightarrow>
     (KVStore ctx (AttestationKey (GetNonce at)) \<noteq> None \<and> ctx' = ctx \<and>
        p = Panic ''trying to overwrite existing attestation request'') \<or>
     (KVStore ctx (AttestationKey (GetNonce at)) = None \<and> ctx' = ctx \<and>
        (\<exists>err. MarshalInterface (cdc k) at = Inl err \<and> p = PanicErr err)) \<or>
     (KVStore ctx (AttestationKey (GetNonce at)) = None \<and> CheckLatestAttestationNonce ctx \<and>
        (\<forall>latest. GetLatestAttestationNonce ctx = Inr latest \<longrightarrow> latest + 1 \<noteq> GetNonce at) \<and>
        (\<exists>b. MarshalInterface (cdc k) at = Inr b \<and>
           ctx' = ctx\<lparr>KVStore := (KVStore ctx)(AttestationKey (GetNonce at) \<mapsto> b)\<rparr>))"
  by (auto simp: SetAttestationRequest_unfold split: sum.splits if_splits)

lemma SetAttestationRequest_keeps_entry:
  assumes "KVStore ctx (AttestationKey n) = Some b"
    and "SetAttestationRequest k ctx at = Inl (p, ctx') \<or> SetAttestationRequest k ctx at = Inr (err, ctx')"
  shows "KVStore ctx' (AttestationKey n) = Some b"
  using assms by (auto simp: SetAttestationRequest_Inr dest!: SetAttestationRequest_Inl)

lemma appends_keeps_entry:
  "appends k ctx ats = Inr ctx' \<Longrightarrow> KVStore ctx (AttestationKey n) = Some b \<Longrightarrow>
   KVStore ctx' (AttestationKey n) = Some b"
proof (induction ats arbitrary: ctx)
  case Nil
  then show ?case by simp
next
  case (Cons a ats)
  from Cons.prems(1) obtain err c where a: "SetAttestationRequest k ctx a = Inr (err, c)"
    and rest: "appends k c ats = Inr ctx'"
    by (auto split: sum.splits)
  from Cons.prems(2) a have "KVStore c (AttestationKey n) = Some b"
    using SetAttestationRequest_keeps_entry by blast
  with rest show ?case by (rule Cons.IH)
qed

subsection \<open>C3: the state at a panic of \<open>SetAttestationRequest\<close>\<close>

text \<open>
  Claim C3 says that no mutation is observable at the point where an append panics. That holds
  for the panic on an existing key (and on a serialization failure): the context is unchanged.
  It fails for the nonce mismatch: \<open>StoreAttestation\<close> runs first, so the attestation
  entry is already written when \<open>SetLatestAttestationNonce\<close> panics; only the enclosing
  transaction discards it.

  Amended claim C3. When \<open>SetAttestationRequest\<close> panics, both counters, the events and
  every key other than the attestation key of the request are unchanged at the point of the
  panic. If the key already held a value or serialization failed, the whole context is
  unchanged. Otherwise (the panic of the nonce check) the context differs from the original
  exactly by the request's serialized attestation written under its key.
\<close>

theorem SetAttestationRequest_panic_state:
  "SetAttestationRequest k ctx at = Inl (p, ctx') \<Longrightarrow>
     (\<forall>key. key \<noteq> GetAttestationKey (GetNonce at) \<longrightarrow> KVStore ctx' key = KVStore ctx key) \<and>
     KVStore ctx' LatestAttestationtNonce = KVStore ctx LatestAttestationtNonce \<and>
     KVStore ctx' LastPrunedAttestationNonce = KVStore ctx LastPrunedAttestationNonce \<and>
     EventManager ctx' = EventManager ctx \<and>
     (Has (KVStore ctx) (GetAttestationKey (GetNonce at)) \<or>
        (\<exists>err. MarshalInterface (cdc k) at = Inl err) \<longrightarrow> ctx' = ctx) \<and>
     (\<forall>b. \<not> Has (KVStore ctx) (GetAttestationKey (GetNonce at)) \<and>
          MarshalInterface (cdc k) at = Inr b \<longrightarrow>
          ctx' = ctx\<lparr>KVStore := Set (KVStore ctx) (GetAttestationKey (GetNonce at)) b\<rparr>)"
  by (auto simp: store_defs dest!: SetAttestationRequest_Inl)

theorem SetAttestationRequest_panic_state_witness:
  "SetAttestationRequest keeper_spec ctx1 (DataCommitment 1 [5]) =
     Inl (Panic ''trying to overwrite existing attestation request'', ctx1) \<and>
   Has (KVStore ctx1) (GetAttestationKey (GetNonce (DataCommitment 1 [5]))) \<and>
   SetAttestationRequest keeper_spec ctx1 (Valset 3 []) =
     Inl (Panic ''not incrementing latest attestation nonce correctly'',
          ctx1\<lparr>KVStore := Set (KVStore ctx1) (GetAttestationKey 3) [0, 0, 0, 0, 0, 0, 0, 0, 3]\<rparr>) \<and>
   \<not> Has (KVStore ctx1) (GetAttestationKey (GetNonce (Valset 3 []))) \<and>
   MarshalInterface (cdc keeper_spec) (Valset 3 []) = Inr [0, 0, 0, 0, 0, 0, 0, 0, 3] \<and>
   KVStore (ctx1\<lparr>KVStore := Set (KVStore ctx1) (GetAttestationKey 3) [0, 0, 0, 0, 0, 0, 0, 0, 3]\<rparr>)
     LatestAttestationtNonce = KVStore ctx1 LatestAttestationtNonce"
proof -
  have a: "SetAttestationRequest keeper_spec ctx1 (DataCommitment 1 [5]) =
     Inl (Panic ''trying to overwrite existing attestation request'', ctx1)"
    by (simp add: SetAttestationRequest_unfold ctx1_def)
  have b: "SetAttestationRequest keeper_spec ctx1 (Valset 3 []) =
     Inl (Panic ''not incrementing latest attestation nonce correctly'',
          ctx1\<lparr>KVStore := Set (KVStore ctx1) (GetAttestationKey 3) [0, 0, 0, 0, 0, 0, 0, 0, 3]\<rparr>)"
    by (simp add: SetAttestationRequest_unfold ctx1_def MarshalInterface_spec_def UInt64Bytes_def
        CheckLatestAttestationNonce_def GetLatestAttestationNonce_def store_defs)
  show ?thesis
    using SetAttestationRequest_panic_state [OF a] SetAttestationRequest_panic_state [OF b] a b
    by (simp add: ctx1_def store_defs MarshalInterface_spec_def UInt64Bytes_def)
qed

text \<open>
  The counterexample to claim C3 as stated: on the log holding nonce 1, an append with nonce
  3 panics in the nonce check, and at that point the entry for nonce 3 has been written.
\<close>

theorem SetAttestationRequest_panic_state_counterexample:
  "SetAttestationRequest keeper_spec ctx1 (Valset 3 []) =
     Inl (Panic ''not incrementing latest attestation nonce correctly'',
          ctx1\<lparr>KVStore := Set (KVStore ctx1) (GetAttestationKey 3) [0, 0, 0, 0, 0, 0, 0, 0, 3]\<rparr>) \<and>
   KVStore ctx1 (GetAttestationKey 3) = None \<and>
   KVStore (ctx1\<lparr>KVStore := Set (KVStore ctx1) (GetAttestationKey 3) [0, 0, 0, 0, 0, 0, 0, 0, 3]\<rparr>)
     (GetAttestationKey 3) = Some [0, 0, 0, 0, 0, 0, 0, 0, 3]"
  by (simp add: SetAttestationRequest_unfold ctx1_def MarshalInterface_spec_def UInt64Bytes_def
      CheckLatestAttestationNonce_def GetLatestAttestationNonce_def store_defs)

subsection \<open>C4: an append never overwrites\<close>

text \<open>
  Claim C4. After an append with nonce \<open>n\<close> has succeeded, and after any further successful
  appends, an append whose request carries nonce \<open>n\<close> panics on the existing key, leaving
  the context as it was, and the value stored under \<open>n\<close> is still the serialization of
  the first request. In general no call of \<open>SetAttestationRequest\<close>, whether it returns or
  panics, changes an attestation entry that is already present.
\<close>

theorem append_never_overwrites:
  "(SetAttestationRequest k ctx at = Inr (err, c1) \<and> appends k c1 ats = Inr c2 \<and>
    GetNonce at' = GetNonce at \<longrightarrow>
      SetAttestationRequest k c2 at' =
        Inl (Panic ''trying to overwrite existing attestation request'', c2) \<and>
      KVStore c2 (GetAttestationKey (GetNonce at)) = KVStore c1 (GetAttestationKey (GetNonce at)) \<and>
      (\<exists>b. MarshalInterface (cdc k) at = Inr b \<and>
           KVStore c2 (GetAttestationKey (GetNonce at)) = Some b)) \<and>
   (\<forall>n b. KVStore ctx (GetAttestationKey n) = Some b \<and>
      (SetAttestationRequest k ctx at = Inl (p, ctx') \<or>
       SetAttestationRequest k ctx at = Inr (err', ctx')) \<longrightarrow>
      KVStore ctx' (GetAttestationKey n) = Some b)"
proof (intro conjI impI allI)
  fix n b
  assume "KVStore ctx (GetAttestationKey n) = Some b \<and>
      (SetAttestationRequest k ctx at = Inl (p, ctx') \<or>
       SetAttestationRequest k ctx at = Inr (err', ctx'))"
  then show "KVStore ctx' (GetAttestationKey n) = Some b"
    using SetAttestationRequest_keeps_entry [of ctx n b k at p ctx' err']
    by (simp add: GetAttestationKey_def)
next
  assume h: "SetAttestationRequest k ctx at = Inr (err, c1) \<and> appends k c1 ats = Inr c2 \<and>
    GetNonce at' = GetNonce at"
  then obtain b where b: "MarshalInterface (cdc k) at = Inr b" and c1: "c1 = appended ctx at b"
    by (auto simp: SetAttestationRequest_Inr)
  then have s1: "KVStore c1 (AttestationKey (GetNonce at)) = Some b" by simp
  with h have s2: "KVStore c2 (AttestationKey (GetNonce at)) = Some b"
    using appends_keeps_entry by blast
  show "SetAttestationRequest k c2 at' =
        Inl (Panic ''trying to overwrite existing attestation request'', c2)"
    using s2 h by (simp add: SetAttestationRequest_unfold)
  show "KVStore c2 (GetAttestationKey (GetNonce at)) = KVStore c1 (GetAttestationKey (GetNonce at))"
    using s1 s2 by (simp add: GetAttestationKey_def)
  show "\<exists>b. MarshalInterface (cdc k) at = Inr b \<and>
           KVStore c2 (GetAttestationKey (GetNonce at)) = Some b"
    using b s2 by (simp add: GetAttestationKey_def)
qed


lemma append2: "SetAttestationRequest keeper_spec ctx1 (DataCommitment 2 [7]) = Inr (None, ctx2)"
  by (simp add: SetAttestationRequest_Inr ctx2_def MarshalInterface_spec_def UInt64Bytes_def)
    (simp add: ctx1_def GetLatestAttestationNonce_def store_defs)

lemma append3: "SetAttestationRequest keeper_spec ctx2 (Valset 3 []) = Inr (None, ctx3)"
  by (simp add: SetAttestationRequest_Inr ctx3_def MarshalInterface_spec_def UInt64Bytes_def)
    (simp add: ctx2_def ctx1_def)

lemma appends123:
  "appends keeper_spec fresh [Valset 1 [], DataCommitment 2 [7], Valset 3 []] = Inr ctx3"
  by (simp add: append1 append2 append3)

theorem append_never_overwrites_witness:
  "SetAttestationRequest keeper_spec fresh (Valset 1 []) = Inr (None, ctx1) \<and>
   appends keeper_spec ctx1 [DataCommitment 2 [7]] = Inr ctx2 \<and>
   GetNonce (DataCommitment 1 [5]) = GetNonce (Valset 1 []) \<and>
   SetAttestationRequest keeper_spec ctx2 (DataCommitment 1 [5]) =
     Inl (Panic ''trying to overwrite existing attestation request'', ctx2) \<and>
   KVStore ctx2 (GetAttestationKey 1) = KVStore ctx1 (GetAttestationKey 1) \<and>
   KVStore ctx2 (GetAttestationKey 1) = Some [0, 0, 0, 0, 0, 0, 0, 0, 1]"
proof -
  have a: "appends keeper_spec ctx1 [DataCommitment 2 [7]] = Inr ctx2"
    by (simp add: append2)
  have m: "MarshalInterface (cdc keeper_spec) (Valset 1 []) = Inr [0, 0, 0, 0, 0, 0, 0, 0, 1]"
    by (simp add: MarshalInterface_spec_def UInt64Bytes_def)
  show ?thesis
    using append_never_overwrites [of keeper_spec fresh "Valset 1 []" None ctx1
        "[DataCommitment 2 [7]]" ctx2 "DataCommitment 1 [5]" "Panic []" ctx1 None] append1 a m
    by (simp add: ctx1_def GetAttestationKey_def)
qed


subsection \<open>C2: the nonce check of an append\<close>

lemma appends_ConsD:
  assumes "appends k ctx (a # ats) = Inr c"
  shows "\<exists>b. MarshalInterface (cdc k) a = Inr b \<and>
             KVStore ctx (AttestationKey (GetNonce a)) = None \<and>
             (CheckLatestAttestationNonce ctx \<longrightarrow>
                (\<exists>latest. GetLatestAttestationNonce ctx = Inr latest \<and>
                   latest + 1 = GetNonce a)) \<and>
             appends k (appended ctx a b) ats = Inr c"
proof (cases "SetAttestationRequest k ctx a")
  case (Inl pc)
  with assms show ?thesis by simp
next
  case (Inr r)
  from Inr [unfolded SetAttestationRequest_Inr]
  obtain b where b: "MarshalInterface (cdc k) a = Inr b" and r: "r = (None, appended ctx a b)"
    and absent: "KVStore ctx (AttestationKey (GetNonce a)) = None"
    and chk: "CheckLatestAttestationNonce ctx \<longrightarrow>
                (\<exists>latest. GetLatestAttestationNonce ctx = Inr latest \<and>
                   latest + 1 = GetNonce a)"
    by blast
  from assms Inr r have "appends k (appended ctx a b) ats = Inr c" by simp
  with b absent chk show ?thesis by blast
qed

lemma appends_hd:
  assumes "appends k ctx (a # ats) = Inr c" and "CheckLatestAttestationNonce ctx"
  shows "\<exists>latest. GetLatestAttestationNonce ctx = Inr latest \<and> GetNonce a = latest + 1"
  using appends_ConsD [OF assms(1)] assms(2) by auto

lemma appends_consecutive:
  "appends k ctx ats = Inr c \<Longrightarrow> Suc i < length ats \<Longrightarrow>
   GetNonce (ats ! Suc i) = GetNonce (ats ! i) + 1"
proof (induction ats arbitrary: ctx i)
  case Nil
  then show ?case by simp
next
  case (Cons a ats)
  from appends_ConsD [OF Cons.prems(1)]
  obtain b where rest: "appends k (appended ctx a b) ats = Inr c" by blast
  show ?case
  proof (cases i)
    case 0
    with Cons.prems(2) obtain a' ats' where ats: "ats = a' # ats'" by (cases ats) auto
    from appends_hd [OF rest [unfolded ats]] have "GetNonce a' = GetNonce a + 1" by simp
    with 0 ats show ?thesis by simp
  next
    case (Suc j)
    with Cons.prems(2) have "Suc j < length ats" by simp
    from Cons.IH [OF rest this] Suc show ?thesis by simp
  qed
qed

lemma appends_latest:
  "appends k ctx ats = Inr c \<Longrightarrow> ats \<noteq> [] \<Longrightarrow>
   CheckLatestAttestationNonce c \<and> GetLatestAttestationNonce c = Inr (GetNonce (last ats))"
proof (induction ats arbitrary: ctx)
  case Nil
  then show ?case by simp
next
  case (Cons a ats)
  from appends_ConsD [OF Cons.prems(1)]
  obtain b where rest: "appends k (appended ctx a b) ats = Inr c" by blast
  show ?case
  proof (cases "ats = []")
    case True
    with rest show ?thesis by auto
  next
    case False
    from Cons.IH [OF rest False] False show ?thesis by simp
  qed
qed

lemma appends_absent_before:
  "appends k ctx ats = Inr c \<Longrightarrow> at \<in> set ats \<Longrightarrow>
   KVStore ctx (AttestationKey (GetNonce at)) = None"
proof (induction ats arbitrary: ctx)
  case Nil
  then show ?case by simp
next
  case (Cons a ats)
  from appends_ConsD [OF Cons.prems(1)]
  obtain b where a: "KVStore ctx (AttestationKey (GetNonce a)) = None"
    and rest: "appends k (appended ctx a b) ats = Inr c"
    by blast
  show ?case
  proof (cases "at = a")
    case True
    with a show ?thesis by simp
  next
    case False
    with Cons.prems(2) have "at \<in> set ats" by simp
    from Cons.IH [OF rest this] show ?thesis by (simp split: if_splits)
  qed
qed

lemma appends_distinct:
  "appends k ctx ats = Inr c \<Longrightarrow> distinct (map GetNonce ats)"
proof (induction ats arbitrary: ctx)
  case Nil
  then show ?case by simp
next
  case (Cons a ats)
  from appends_ConsD [OF Cons.prems]
  obtain b where rest: "appends k (appended ctx a b) ats = Inr c" by blast
  have "GetNonce a \<notin> GetNonce ` set ats"
  proof
    assume "GetNonce a \<in> GetNonce ` set ats"
    then obtain at where "at \<in> set ats" and "GetNonce at = GetNonce a" by auto
    with appends_absent_before [OF rest] show False by fastforce
  qed
  with Cons.IH [OF rest] show ?case by simp
qed

lemma appends_stored:
  "appends k ctx ats = Inr c \<Longrightarrow> at \<in> set ats \<Longrightarrow>
   \<exists>b. MarshalInterface (cdc k) at = Inr b \<and> KVStore c (AttestationKey (GetNonce at)) = Some b"
proof (induction ats arbitrary: ctx)
  case Nil
  then show ?case by simp
next
  case (Cons a ats)
  from appends_ConsD [OF Cons.prems(1)]
  obtain b where b: "MarshalInterface (cdc k) a = Inr b"
    and rest: "appends k (appended ctx a b) ats = Inr c" by blast
  show ?case
  proof (cases "at = a")
    case True
    have "KVStore (appended ctx a b) (AttestationKey (GetNonce a)) = Some b" by simp
    with rest have "KVStore c (AttestationKey (GetNonce a)) = Some b"
      by (rule appends_keeps_entry)
    with b True show ?thesis by simp
  next
    case False
    with Cons.prems(2) have "at \<in> set ats" by simp
    from Cons.IH [OF rest this] show ?thesis .
  qed
qed

lemma SetAttestationRequest_panics_iff:
  "(\<exists>pc. SetAttestationRequest k ctx at = Inl pc) \<longleftrightarrow>
     Has (KVStore ctx) (GetAttestationKey (GetNonce at)) \<or>
     (\<exists>err. MarshalInterface (cdc k) at = Inl err) \<or>
     (CheckLatestAttestationNonce ctx \<and>
      (\<forall>latest. GetLatestAttestationNonce ctx = Inr latest \<longrightarrow> latest + 1 \<noteq> GetNonce at))"
  by (auto simp: SetAttestationRequest_unfold store_defs split: sum.splits)

text \<open>
  Claim C2 says that an append panics if and only if the nonce of the request is not
  \<open>LatestNonce + 1\<close>, or not 1 when nothing has been appended. The code checks the nonce
  only when the latest nonce counter exists: the first append is accepted with any nonce. It
  also panics on an existing key and on a serialization failure.

  Amended claim C2. \<open>SetAttestationRequest\<close> panics if and only if the attestation key
  of the request already holds a value, or serialization fails, or the latest nonce counter
  is set and the nonce of the request is not the stored latest nonce plus one (in \<open>uint64\<close>
  arithmetic; unreadable counter bytes panic as well). When the counter is not set, any nonce
  is accepted. A successful append on a log whose latest nonce is \<open>l\<close> carries nonce
  \<open>l + 1\<close> and leaves the latest nonce at \<open>l + 1\<close>. Consequently, in every run of
  successful appends each nonce is the previous one plus one, no nonce repeats, every nonce of
  the run is stored, the latest nonce is the nonce of the last request, and the first nonce
  is the previous latest nonce plus one when there was one.
\<close>

theorem SetAttestationRequest_nonce_check:
  "((\<exists>pc. SetAttestationRequest k ctx at = Inl pc) \<longleftrightarrow>
     Has (KVStore ctx) (GetAttestationKey (GetNonce at)) \<or>
     (\<exists>err. MarshalInterface (cdc k) at = Inl err) \<or>
     (CheckLatestAttestationNonce ctx \<and>
      (\<forall>latest. GetLatestAttestationNonce ctx = Inr latest \<longrightarrow> latest + 1 \<noteq> GetNonce at))) \<and>
   (\<forall>err ctx' latest. SetAttestationRequest k ctx at = Inr (err, ctx') \<and>
      GetLatestAttestationNonce ctx = Inr latest \<longrightarrow>
      GetNonce at = latest + 1 \<and> GetLatestAttestationNonce ctx' = Inr (latest + 1)) \<and>
   (\<forall>c. appends k ctx ats = Inr c \<longrightarrow>
      (\<forall>i. Suc i < length ats \<longrightarrow> GetNonce (ats ! Suc i) = GetNonce (ats ! i) + 1) \<and>
      distinct (map GetNonce ats) \<and>
      (\<forall>a \<in> set ats. Has (KVStore c) (GetAttestationKey (GetNonce a))) \<and>
      (ats \<noteq> [] \<longrightarrow> GetLatestAttestationNonce c = Inr (GetNonce (last ats))) \<and>
      (ats \<noteq> [] \<and> CheckLatestAttestationNonce ctx \<longrightarrow>
         GetLatestAttestationNonce ctx = Inr (GetNonce (hd ats) - 1)))"
proof (intro conjI allI impI ballI)
  show "(\<exists>pc. SetAttestationRequest k ctx at = Inl pc) \<longleftrightarrow>
     Has (KVStore ctx) (GetAttestationKey (GetNonce at)) \<or>
     (\<exists>err. MarshalInterface (cdc k) at = Inl err) \<or>
     (CheckLatestAttestationNonce ctx \<and>
      (\<forall>latest. GetLatestAttestationNonce ctx = Inr latest \<longrightarrow> latest + 1 \<noteq> GetNonce at))"
    by (rule SetAttestationRequest_panics_iff)
next
  fix err ctx' latest
  assume h: "SetAttestationRequest k ctx at = Inr (err, ctx') \<and>
      GetLatestAttestationNonce ctx = Inr latest"
  then have "CheckLatestAttestationNonce ctx"
    by (auto simp: CheckLatestAttestationNonce_def GetLatestAttestationNonce_def store_defs
        split: option.splits)
  with h show "GetNonce at = latest + 1" by (auto simp: SetAttestationRequest_Inr)
  with h show "GetLatestAttestationNonce ctx' = Inr (latest + 1)"
    by (auto simp: SetAttestationRequest_Inr)
next
  fix c i
  assume "appends k ctx ats = Inr c" and "Suc i < length ats"
  then show "GetNonce (ats ! Suc i) = GetNonce (ats ! i) + 1" by (rule appends_consecutive)
next
  fix c
  assume "appends k ctx ats = Inr c"
  then show "distinct (map GetNonce ats)" by (rule appends_distinct)
next
  fix c a
  assume "appends k ctx ats = Inr c" and "a \<in> set ats"
  from appends_stored [OF this] show "Has (KVStore c) (GetAttestationKey (GetNonce a))"
    by (auto simp: store_defs)
next
  fix c
  assume "appends k ctx ats = Inr c" and "ats \<noteq> []"
  from appends_latest [OF this] show "GetLatestAttestationNonce c = Inr (GetNonce (last ats))"
    by simp
next
  fix c
  assume a: "appends k ctx ats = Inr c" and b: "ats \<noteq> [] \<and> CheckLatestAttestationNonce ctx"
  then obtain a' ats' where "ats = a' # ats'" by (cases ats) auto
  with a b appends_hd [of k ctx a' ats' c]
  show "GetLatestAttestationNonce ctx = Inr (GetNonce (hd ats) - 1)" by auto
qed

text \<open>
  The counterexample to claim C2 as stated: on the fresh log an append with nonce 5 succeeds,
  although no attestation exists yet and 5 is not 1.
\<close>

theorem SetAttestationRequest_nonce_check_counterexample:
  "SetAttestationRequest keeper_spec fresh (Valset 5 []) =
     Inr (None, appended fresh (Valset 5 []) [0, 0, 0, 0, 0, 0, 0, 0, 5]) \<and>
   \<not> CheckLatestAttestationNonce fresh \<and>
   GetNonce (Valset 5 []) \<noteq> 1"
  by (simp add: SetAttestationRequest_unfold fresh_def CheckLatestAttestationNonce_def store_defs
      MarshalInterface_spec_def UInt64Bytes_def)

lemma latest_ctx1: "CheckLatestAttestationNonce ctx1 \<and> GetLatestAttestationNonce ctx1 = Inr 1"
  by (simp add: ctx1_def CheckLatestAttestationNonce_def GetLatestAttestationNonce_def store_defs)

lemma appends23:
  "appends keeper_spec ctx1 [DataCommitment 2 [7], Valset 3 []] = Inr ctx3"
  by (simp add: append2 append3)

theorem SetAttestationRequest_nonce_check_witness:
  "(\<exists>pc. SetAttestationRequest keeper_spec ctx1 (Valset 3 []) = Inl pc) \<and>
   CheckLatestAttestationNonce ctx1 \<and> GetLatestAttestationNonce ctx1 = Inr 1 \<and>
   (1 :: uint64) + 1 \<noteq> GetNonce (Valset 3 []) \<and>
   SetAttestationRequest keeper_spec ctx1 (DataCommitment 2 [7]) = Inr (None, ctx2) \<and>
   GetLatestAttestationNonce ctx2 = Inr (1 + 1) \<and>
   appends keeper_spec ctx1 [DataCommitment 2 [7], Valset 3 []] = Inr ctx3 \<and>
   distinct (map GetNonce [DataCommitment 2 [7], Valset 3 []]) \<and>
   Has (KVStore ctx3) (GetAttestationKey 2) \<and> Has (KVStore ctx3) (GetAttestationKey 3) \<and>
   GetLatestAttestationNonce ctx3 = Inr 3"
proof -
  note a = SetAttestationRequest_nonce_check
    [of keeper_spec ctx1 "Valset 3 []" "[DataCommitment 2 [7], Valset 3 []]"]
  note b = SetAttestationRequest_nonce_check
    [of keeper_spec ctx1 "DataCommitment 2 [7]" "[]"]
  have "CheckLatestAttestationNonce ctx1 \<and>
      (\<forall>latest. GetLatestAttestationNonce ctx1 = Inr latest \<longrightarrow>
         latest + 1 \<noteq> GetNonce (Valset 3 []))"
    using latest_ctx1 by simp
  then have p: "\<exists>pc. SetAttestationRequest keeper_spec ctx1 (Valset 3 []) = Inl pc"
    using a [THEN conjunct1] by blast
  have s: "GetLatestAttestationNonce ctx2 = Inr (1 + 1)"
    using b [THEN conjunct2, THEN conjunct1] append2 latest_ctx1 by blast
  note c = a [THEN conjunct2, THEN conjunct2, rule_format, OF appends23]
  have r1: "distinct (map GetNonce [DataCommitment 2 [7], Valset 3 []])"
    using c by blast
  have r2: "Has (KVStore ctx3) (GetAttestationKey 2) \<and> Has (KVStore ctx3) (GetAttestationKey 3)"
    using c [THEN conjunct2, THEN conjunct2, THEN conjunct1] by simp
  have r3: "GetLatestAttestationNonce ctx3 = Inr 3"
    using c [THEN conjunct2, THEN conjunct2, THEN conjunct2, THEN conjunct1] by simp
  have n: "(1 :: uint64) + 1 \<noteq> GetNonce (Valset 3 [])" by simp
  from p latest_ctx1 n append2 s appends23 r1 r2 r3 show ?thesis by blast
qed

subsection \<open>C9: serialization round trip\<close>

lemma codec_spec_round_trip:
  "\<exists>b. MarshalInterface_spec x = Inr b \<and> UnmarshalInterface_spec b = Inr x"
  by (cases x) (simp_all add: MarshalInterface_spec_def UnmarshalInterface_spec_def)

lemma get_after_append:
  assumes "SetAttestationRequest k ctx x = Inr (err, ctx')"
    and "MarshalInterface (cdc k) x = Inr b" and "UnmarshalInterface (cdc k) b = Inr x"
  shows "GetAttestationByNonce k ctx' (GetNonce x) = (Some x, True, None)"
proof -
  from assms(1,2) have "ctx' = appended ctx x b"
    unfolding SetAttestationRequest_Inr by auto
  with assms(3) show ?thesis
    by (simp add: GetAttestationByNonce_def store_defs)
qed

text \<open>
  Claim C9. For every attestation request \<open>x\<close> of either variant, decoding the bytes that
  encoding \<open>x\<close> produces yields \<open>x\<close> again, hence the same variant. For every keeper
  whose codec round-trips on \<open>x\<close>, and so for the keeper with the codec above,
  \<open>GetAttestationByNonce\<close> after a successful append of \<open>x\<close> returns \<open>x\<close> with
  \<open>found = true\<close> and no error.
\<close>

theorem codec_round_trip:
  "(\<exists>b. MarshalInterface cdc_spec x = Inr b \<and> UnmarshalInterface cdc_spec b = Inr x) \<and>
   (\<forall>b. SetAttestationRequest k ctx x = Inr (err, ctx') \<and>
        MarshalInterface (cdc k) x = Inr b \<and> UnmarshalInterface (cdc k) b = Inr x \<longrightarrow>
        GetAttestationByNonce k ctx' (GetNonce x) = (Some x, True, None)) \<and>
   (SetAttestationRequest keeper_spec ctx x = Inr (err, ctx') \<longrightarrow>
      GetAttestationByNonce keeper_spec ctx' (GetNonce x) = (Some x, True, None))"
proof (intro conjI allI impI)
  show "\<exists>b. MarshalInterface cdc_spec x = Inr b \<and> UnmarshalInterface cdc_spec b = Inr x"
    using codec_spec_round_trip [of x] by (simp add: cdc_spec_def)
next
  fix b
  assume "SetAttestationRequest k ctx x = Inr (err, ctx') \<and>
        MarshalInterface (cdc k) x = Inr b \<and> UnmarshalInterface (cdc k) b = Inr x"
  then show "GetAttestationByNonce k ctx' (GetNonce x) = (Some x, True, None)"
    using get_after_append by blast
next
  assume a: "SetAttestationRequest keeper_spec ctx x = Inr (err, ctx')"
  from codec_spec_round_trip [of x] obtain b where
    "MarshalInterface (cdc keeper_spec) x = Inr b" "UnmarshalInterface (cdc keeper_spec) b = Inr x"
    by auto
  with a show "GetAttestationByNonce keeper_spec ctx' (GetNonce x) = (Some x, True, None)"
    by (rule get_after_append)
qed

theorem codec_round_trip_witness:
  "SetAttestationRequest keeper_spec ctx1 (DataCommitment 2 [7]) = Inr (None, ctx2) \<and>
   MarshalInterface (cdc keeper_spec) (DataCommitment 2 [7]) = Inr [1, 0, 0, 0, 0, 0, 0, 0, 2, 7] \<and>
   UnmarshalInterface (cdc keeper_spec) [1, 0, 0, 0, 0, 0, 0, 0, 2, 7] = Inr (DataCommitment 2 [7]) \<and>
   GetAttestationByNonce keeper_spec ctx2 2 = (Some (DataCommitment 2 [7]), True, None)"
proof -
  have m: "MarshalInterface (cdc keeper_spec) (DataCommitment 2 [7]) =
      Inr [1, 0, 0, 0, 0, 0, 0, 0, 2, 7]"
    by (simp add: MarshalInterface_spec_def UInt64Bytes_def)
  have u: "UnmarshalInterface (cdc keeper_spec) [1, 0, 0, 0, 0, 0, 0, 0, 2, 7] =
      Inr (DataCommitment 2 [7])"
    by (simp add: UnmarshalInterface_spec_def)
  from codec_round_trip [of "DataCommitment 2 [7]" keeper_spec ctx1 None ctx2] append2 m u
  have "GetAttestationByNonce keeper_spec ctx2 (GetNonce (DataCommitment 2 [7])) =
      (Some (DataCommitment 2 [7]), True, None)" by blast
  with append2 m u show ?thesis by simp
qed

subsection \<open>The pruning composition\<close>


lemma KVStore_DeleteAttestation:
  "KVStore (DeleteAttestation ctx n) key =
     (if key = AttestationKey n then None else KVStore ctx key)"
  by (simp add: DeleteAttestation_def store_defs Let_def)

lemma KVStore_fold_Delete:
  "KVStore (fold (\<lambda>n c. DeleteAttestation c (of_nat n)) xs ctx) key =
     (if \<exists>n \<in> set xs. key = AttestationKey (of_nat n) then None else KVStore ctx key)"
  by (induction xs arbitrary: ctx) (auto simp: KVStore_DeleteAttestation)

lemma of_nat_range:
  "(\<exists>n. lo \<le> n \<and> n \<le> unat (hi :: uint64) \<and> (w :: uint64) = of_nat n) \<longleftrightarrow>
     lo \<le> unat w \<and> unat w \<le> unat hi"
proof
  assume "\<exists>n. lo \<le> n \<and> n \<le> unat hi \<and> w = of_nat n"
  then obtain n where n: "lo \<le> n" "n \<le> unat hi" "w = of_nat n" by blast
  from n(2) have "unat (of_nat n :: uint64) = n" by (rule le_unat_uoi)
  with n(3) have "unat w = n" by (simp only:)
  with n(1,2) show "lo \<le> unat w \<and> unat w \<le> unat hi" by (simp only:)
next
  assume "lo \<le> unat w \<and> unat w \<le> unat hi"
  then have "lo \<le> unat w \<and> unat w \<le> unat hi \<and> w = of_nat (unat w)" by simp
  then show "\<exists>n. lo \<le> n \<and> n \<le> unat hi \<and> w = of_nat n" by blast
qed

lemma KVStore_DeleteRange:
  "KVStore (DeleteRange ctx lo (unat (hi :: uint64))) key =
     (case key of
        AttestationKey w \<Rightarrow> if lo \<le> unat w \<and> unat w \<le> unat hi then None else KVStore ctx key
      | _ \<Rightarrow> KVStore ctx key)"
proof (cases key)
  case (AttestationKey w)
  have "(\<exists>n \<in> set [lo ..< Suc (unat hi)]. w = of_nat n) \<longleftrightarrow>
        (\<exists>n. lo \<le> n \<and> n \<le> unat hi \<and> w = of_nat n)"
    by auto
  with AttestationKey show ?thesis
    by (simp add: DeleteRange_def KVStore_fold_Delete of_nat_range)
qed (auto simp: DeleteRange_def KVStore_fold_Delete)

lemma word_facts:
  fixes a b :: uint64
  shows "a + 1 \<noteq> 0 \<Longrightarrow> unat (a + 1) = unat a + 1"
    and "(a = b) = (unat a = unat b)"
   apply (metis add.commute unatSuc Suc_eq_plus1)
  apply (simp add: word_unat_eq_iff)
  done

lemma range_insert:
  fixes latest lo :: uint64
  assumes "latest + 1 \<noteq> 0" and "lo \<le> latest"
  shows "insert (latest + 1) {n. lo < n \<and> n \<le> latest} = {n. lo < n \<and> n \<le> latest + 1}"
  using assms
  by (auto simp: word_le_nat_alt word_less_nat_alt word_facts(1)) (simp_all add: word_facts)


lemma KVStore_pruned:
  "KVStore (SetLastPrunedAttestationNonce (DeleteRange ctx lo (unat (target :: uint64))) target) key =
     (case key of
        AttestationKey w \<Rightarrow>
          if lo \<le> unat w \<and> unat w \<le> unat target then None else KVStore ctx key
      | LastPrunedAttestationNonce \<Rightarrow> Some (UInt64Bytes target)
      | _ \<Rightarrow> KVStore ctx key)"
  by (simp add: SetLastPrunedAttestationNonce_def store_defs KVStore_DeleteRange split: key.splits)

lemma EventManager_fold_Delete:
  "EventManager (fold (\<lambda>n c. DeleteAttestation c (of_nat n)) xs ctx) = EventManager ctx"
  by (induction xs arbitrary: ctx) (simp_all add: DeleteAttestation_def Let_def)

lemma EventManager_pruned:
  "EventManager (SetLastPrunedAttestationNonce (DeleteRange ctx lo hi) target) = EventManager ctx"
  by (simp add: SetLastPrunedAttestationNonce_def DeleteRange_def EventManager_fold_Delete)

lemma pruned_entry:
  assumes "\<forall>w. KVStore ctx (AttestationKey w) \<noteq> None \<longrightarrow> lo \<le> unat w"
  shows "KVStore (SetLastPrunedAttestationNonce (DeleteRange ctx lo (unat target)) target)
           (AttestationKey j) =
         (if j \<le> target then None else KVStore ctx (AttestationKey j))"
proof (cases "j \<le> target")
  case True
  then have "unat j \<le> unat target" by (simp add: word_le_nat_alt)
  show ?thesis
  proof (cases "lo \<le> unat j")
    case True
    with \<open>unat j \<le> unat target\<close> \<open>j \<le> target\<close> show ?thesis by (simp add: KVStore_pruned)
  next
    case False
    with assms have "\<not> KVStore ctx (AttestationKey j) \<noteq> None" by blast
    then have "KVStore ctx (AttestationKey j) = None" by simp
    with False \<open>j \<le> target\<close> show ?thesis by (simp add: KVStore_pruned)
  qed
next
  case False
  then have "\<not> unat j \<le> unat target" by (simp add: word_le_nat_alt)
  with False show ?thesis by (simp add: KVStore_pruned)
qed

lemma I1_lower_bound:
  assumes "I1 ctx" and "GetLatestAttestationNonce ctx = Inr latest"
  shows "(KVStore ctx LastPrunedAttestationNonce = None \<and>
            stored_nonces ctx = {n. 0 < n \<and> n \<le> latest}) \<or>
         (\<exists>pb pruned. KVStore ctx LastPrunedAttestationNonce = Some pb \<and>
            UInt64FromBytes pb = Inr pruned \<and>
            stored_nonces ctx = {n. pruned < n \<and> n \<le> latest})"
  using assms
  by (auto simp: I1_def GetLatestAttestationNonce_def store_defs split: option.splits sum.splits)

lemma stored_nonces_iff: "n \<in> stored_nonces ctx \<longleftrightarrow> KVStore ctx (AttestationKey n) \<noteq> None"
  by (simp add: stored_nonces_def store_defs)

lemma I1_prune:
  assumes "I1 ctx" and "GetLatestAttestationNonce ctx = Inr latest"
  shows "\<exists>ctx'. PruneUpTo ctx target = Inr ctx' \<and>
           (\<forall>j. KVStore ctx' (AttestationKey j) =
                  (if j \<le> target then None else KVStore ctx (AttestationKey j))) \<and>
           KVStore ctx' LastPrunedAttestationNonce = Some (UInt64Bytes target) \<and>
           KVStore ctx' LatestAttestationtNonce = KVStore ctx LatestAttestationtNonce \<and>
           EventManager ctx' = EventManager ctx"
proof -
  from I1_lower_bound [OF assms] show ?thesis
  proof (elim disjE conjE exE)
    assume none: "KVStore ctx LastPrunedAttestationNonce = None"
      and st: "stored_nonces ctx = {n. 0 < n \<and> n \<le> latest}"
    have "\<forall>w. KVStore ctx (AttestationKey w) \<noteq> None \<longrightarrow> 1 \<le> unat w"
    proof (intro allI impI)
      fix w assume "KVStore ctx (AttestationKey w) \<noteq> None"
      then have "w \<in> stored_nonces ctx" by (simp add: stored_nonces_iff)
      with st have "0 < w" by simp
      then show "1 \<le> unat w" by (simp add: word_less_nat_alt)
    qed
    from pruned_entry [OF this, of target] none show ?thesis
      by (simp add: PruneUpTo_def store_defs KVStore_pruned EventManager_pruned)
  next
    fix pb pruned
    assume some: "KVStore ctx LastPrunedAttestationNonce = Some pb"
      and dec: "UInt64FromBytes pb = Inr pruned"
      and st: "stored_nonces ctx = {n. pruned < n \<and> n \<le> latest}"
    have "\<forall>w. KVStore ctx (AttestationKey w) \<noteq> None \<longrightarrow> unat pruned + 1 \<le> unat w"
    proof (intro allI impI)
      fix w assume "KVStore ctx (AttestationKey w) \<noteq> None"
      then have "w \<in> stored_nonces ctx" by (simp add: stored_nonces_iff)
      with st have "pruned < w" by simp
      then show "unat pruned + 1 \<le> unat w" by (simp add: word_less_nat_alt)
    qed
    from pruned_entry [OF this, of target] some dec show ?thesis
      by (simp add: PruneUpTo_def store_defs KVStore_pruned EventManager_pruned)
  qed
qed


subsection \<open>C7: the pruning boundary\<close>


subsection \<open>C5: the stored nonces form the range of I1\<close>

lemma stored_nonces_appended:
  "stored_nonces (appended ctx at b) = insert (GetNonce at) (stored_nonces ctx)"
  by (auto simp: stored_nonces_def store_defs appended_def)

lemma range_one: "{n :: uint64. 0 < n \<and> n \<le> 1} = {1}"
  by (auto simp: word_le_nat_alt word_less_nat_alt word_unat_eq_iff)

lemma log_inv_fresh: "log_inv fresh"
  by (simp add: log_inv_def I1_def fresh_def stored_nonces_def store_defs)

lemma log_inv_append:
  assumes inv: "log_inv ctx"
    and app: "SetAttestationRequest k ctx at = Inr (err, ctx')"
    and nz: "GetNonce at \<noteq> 0"
    and first: "\<not> CheckLatestAttestationNonce ctx \<longrightarrow> GetNonce at = 1"
  shows "log_inv ctx'"
proof -
  from app [unfolded SetAttestationRequest_Inr] obtain b where
    chk: "CheckLatestAttestationNonce ctx \<longrightarrow>
            (\<exists>latest. GetLatestAttestationNonce ctx = Inr latest \<and> latest + 1 = GetNonce at)"
    and c': "ctx' = appended ctx at b"
    by blast
  show ?thesis
  proof (cases "KVStore ctx LatestAttestationtNonce")
    case None
    with first have n1: "GetNonce at = 1"
      by (simp add: CheckLatestAttestationNonce_def store_defs)
    from inv None have "stored_nonces ctx = {}" "KVStore ctx LastPrunedAttestationNonce = None"
      by (simp_all add: log_inv_def I1_def store_defs)
    with n1 show ?thesis
      unfolding c' log_inv_def I1_def
      by (simp add: store_defs stored_nonces_appended range_one
          GetLastPrunedAttestationNonce_def)
  next
    case (Some lb)
    with inv obtain latest where dec: "UInt64FromBytes lb = Inr latest"
      by (auto simp: log_inv_def I1_def store_defs split: sum.splits)
    with Some have gl: "GetLatestAttestationNonce ctx = Inr latest"
      by (simp add: GetLatestAttestationNonce_def store_defs)
    from Some chk gl have n: "GetNonce at = latest + 1"
      by (auto simp: CheckLatestAttestationNonce_def store_defs)
    with nz have nw: "latest + 1 \<noteq> 0" by simp
    show ?thesis
    proof (cases "KVStore ctx LastPrunedAttestationNonce")
      case None
      with inv Some dec have "stored_nonces ctx = {n. 0 < n \<and> n \<le> latest}"
        by (simp add: log_inv_def I1_def store_defs)
      with None n range_insert [OF nw, of 0] show ?thesis
        unfolding c' log_inv_def I1_def
        by (simp add: store_defs stored_nonces_appended GetLastPrunedAttestationNonce_def)
    next
      case (Some pb)
      with inv \<open>KVStore ctx LatestAttestationtNonce = Some lb\<close> dec
      obtain pruned where pd: "UInt64FromBytes pb = Inr pruned"
        and st: "stored_nonces ctx = {n. pruned < n \<and> n \<le> latest}"
        by (auto simp: log_inv_def I1_def store_defs split: sum.splits)
      from Some pd have "GetLastPrunedAttestationNonce ctx = Inr pruned"
        by (simp add: GetLastPrunedAttestationNonce_def store_defs)
      with inv \<open>KVStore ctx LatestAttestationtNonce = Some lb\<close> gl have lt: "pruned < latest"
        by (simp add: log_inv_def store_defs)
      then have le: "pruned \<le> latest" by simp
      from lt nw have lt': "pruned < latest + 1"
        by (simp add: word_less_nat_alt word_facts(1))
      from Some pd st n range_insert [OF nw le] lt' show ?thesis
        unfolding c' log_inv_def I1_def
        by (simp add: store_defs stored_nonces_appended GetLastPrunedAttestationNonce_def)
    qed
  qed
qed


lemma log_inv_prune:
  assumes inv: "log_inv ctx"
    and gl: "GetLatestAttestationNonce ctx = Inr latest"
    and lt: "target < latest"
    and lb: "\<forall>pruned. GetLastPrunedAttestationNonce ctx = Inr pruned \<longrightarrow> pruned \<le> target"
    and p: "PruneUpTo ctx target = Inr ctx'"
  shows "log_inv ctx'"
proof -
  from inv have i1: "I1 ctx" by (simp add: log_inv_def)
  from I1_prune [OF i1 gl, of target] p have
    e: "\<And>j. KVStore ctx' (AttestationKey j) =
               (if j \<le> target then None else KVStore ctx (AttestationKey j))"
    and lp: "KVStore ctx' LastPrunedAttestationNonce = Some (UInt64Bytes target)"
    and la: "KVStore ctx' LatestAttestationtNonce = KVStore ctx LatestAttestationtNonce"
    by auto
  from gl obtain lbs where l: "KVStore ctx LatestAttestationtNonce = Some lbs"
    and ld: "UInt64FromBytes lbs = Inr latest"
    by (auto simp: GetLatestAttestationNonce_def store_defs split: option.splits)
  have st': "stored_nonces ctx' = {n \<in> stored_nonces ctx. target < n}"
    by (auto simp: stored_nonces_iff e not_le split: if_splits)
  have "stored_nonces ctx' = {n. target < n \<and> n \<le> latest}"
    using I1_lower_bound [OF i1 gl]
  proof (elim disjE conjE exE)
    assume "stored_nonces ctx = {n. 0 < n \<and> n \<le> latest}"
    with st' show ?thesis by (auto simp: word_less_nat_alt)
  next
    fix pb pruned
    assume some: "KVStore ctx LastPrunedAttestationNonce = Some pb"
      and dec: "UInt64FromBytes pb = Inr pruned"
      and st: "stored_nonces ctx = {n. pruned < n \<and> n \<le> latest}"
    from some dec have "GetLastPrunedAttestationNonce ctx = Inr pruned"
      by (simp add: GetLastPrunedAttestationNonce_def store_defs)
    with lb have "pruned \<le> target" by blast
    with st st' show ?thesis by auto
  qed
  with lp la l ld lt show ?thesis
    by (simp add: log_inv_def I1_def store_defs GetLatestAttestationNonce_def
        GetLastPrunedAttestationNonce_def)
qed

lemma log_state_inv: "log_state k ctx \<Longrightarrow> log_inv ctx"
proof (induction rule: log_state.induct)
  case log_fresh
  show ?case by (rule log_inv_fresh)
next
  case (log_append ctx at err ctx')
  then show ?case using log_inv_append by blast
next
  case (log_prune ctx latest target ctx')
  then show ?case using log_inv_prune by blast
qed

text \<open>
  Claim C5 says that I1 holds after any sequence of appends, \<open>DeleteAttestation\<close> and
  \<open>SetLastPrunedAttestationNonce\<close> calls. Both of the latter are unconditional, and the
  first append accepts any nonce, so the claim fails as stated.

  Amended claim C5. In every state reached from the fresh log by successful appends, the first
  with nonce 1 and none wrapping around to nonce 0, and by pruning compositions whose target
  is at or above the last pruned nonce and strictly below the latest nonce, the set of nonces
  with a stored attestation is exactly the range from the last pruned nonce plus one (from 1
  before any pruning) to the latest nonce.
\<close>

theorem log_state_I1: "log_state k ctx \<Longrightarrow> I1 ctx"
  using log_state_inv [of k ctx] by (simp add: log_inv_def)

lemma latest_ctx3: "GetLatestAttestationNonce ctx3 = Inr 3"
  by (simp add: ctx3_def)

lemma log_state_ctx3: "log_state keeper_spec ctx3"
proof -
  have 1: "log_state keeper_spec ctx1"
    by (rule log_append [OF log_fresh append1]) simp_all
  have 2: "log_state keeper_spec ctx2"
    by (rule log_append [OF 1 append2]) (simp_all add: latest_ctx1)
  show ?thesis
    by (rule log_append [OF 2 append3]) (simp_all add: ctx2_def)
qed

lemma prune_ctx3: "PruneUpTo ctx3 1 = Inr ctx3_pruned"
  by (simp add: PruneUpTo_def ctx3_pruned_def store_defs ctx3_def ctx2_def ctx1_def)

lemma log_state_ctx3_pruned: "log_state keeper_spec ctx3_pruned"
proof (rule log_prune [OF log_state_ctx3 latest_ctx3 _ _ prune_ctx3])
  show "(1 :: uint64) < 3" by simp
  show "\<forall>pruned. GetLastPrunedAttestationNonce ctx3 = Inr pruned \<longrightarrow> pruned \<le> 1"
    by (simp add: GetLastPrunedAttestationNonce_def store_defs ctx3_def ctx2_def ctx1_def)
qed

theorem log_state_I1_witness: "log_state keeper_spec ctx3_pruned \<and> I1 ctx3_pruned"
  using log_state_I1 [of keeper_spec ctx3_pruned] log_state_ctx3_pruned by simp

text \<open>
  The counterexample to claim C5 as stated: after appends with the nonces 1, 2, 3, deleting
  the attestation of nonce 2 leaves the nonces 1 and 3 stored with latest nonce 3, a gap; and
  after a first append with nonce 5 the only stored nonce is 5, while the range of I1 starts
  at 1.
\<close>

theorem log_state_I1_counterexample:
  "appends keeper_spec fresh [Valset 1 [], DataCommitment 2 [7], Valset 3 []] = Inr ctx3 \<and>
   Has (KVStore (DeleteAttestation ctx3 2)) (GetAttestationKey 1) \<and>
   \<not> Has (KVStore (DeleteAttestation ctx3 2)) (GetAttestationKey 2) \<and>
   Has (KVStore (DeleteAttestation ctx3 2)) (GetAttestationKey 3) \<and>
   GetLatestAttestationNonce (DeleteAttestation ctx3 2) = Inr 3 \<and>
   \<not> I1 (DeleteAttestation ctx3 2) \<and>
   SetAttestationRequest keeper_spec fresh (Valset 5 []) = Inr (None, ctx_from5) \<and>
   \<not> Has (KVStore ctx_from5) (GetAttestationKey 1) \<and>
   GetLatestAttestationNonce ctx_from5 = Inr 5 \<and>
   \<not> I1 ctx_from5"
proof -
  have k: "Has (KVStore (DeleteAttestation ctx3 2)) (GetAttestationKey 1) \<and>
   \<not> Has (KVStore (DeleteAttestation ctx3 2)) (GetAttestationKey 2) \<and>
   Has (KVStore (DeleteAttestation ctx3 2)) (GetAttestationKey 3)"
    by (simp add: KVStore_DeleteAttestation store_defs ctx3_def ctx2_def ctx1_def)
  have l: "GetLatestAttestationNonce (DeleteAttestation ctx3 2) = Inr 3"
    by (simp add: GetLatestAttestationNonce_def KVStore_DeleteAttestation store_defs ctx3_def)
  have i: "\<not> I1 (DeleteAttestation ctx3 2)"
  proof
    assume "I1 (DeleteAttestation ctx3 2)"
    then have "stored_nonces (DeleteAttestation ctx3 2) = {n. 0 < n \<and> n \<le> 3}"
      by (simp add: I1_def KVStore_DeleteAttestation store_defs ctx3_def ctx2_def ctx1_def)
    moreover have "(2 :: uint64) \<in> {n. 0 < n \<and> n \<le> 3}" by simp
    ultimately have "2 \<in> stored_nonces (DeleteAttestation ctx3 2)" by (simp only:)
    with k show False by (simp add: stored_nonces_def)
  qed
  have a5: "SetAttestationRequest keeper_spec fresh (Valset 5 []) = Inr (None, ctx_from5)"
    by (simp add: SetAttestationRequest_unfold fresh_def CheckLatestAttestationNonce_def
        store_defs MarshalInterface_spec_def UInt64Bytes_def ctx_from5_def)
  have k5: "\<not> Has (KVStore ctx_from5) (GetAttestationKey 1)"
    by (simp add: ctx_from5_def store_defs fresh_def)
  have l5: "GetLatestAttestationNonce ctx_from5 = Inr 5"
    by (simp add: ctx_from5_def)
  have i5: "\<not> I1 ctx_from5"
  proof
    assume "I1 ctx_from5"
    then have "stored_nonces ctx_from5 = {n. 0 < n \<and> n \<le> 5}"
      by (simp add: I1_def ctx_from5_def store_defs fresh_def)
    moreover have "(1 :: uint64) \<in> {n. 0 < n \<and> n \<le> 5}" by simp
    ultimately have "1 \<in> stored_nonces ctx_from5" by (simp only:)
    with k5 show False by (simp add: stored_nonces_def)
  qed
  from k l i a5 k5 l5 i5 appends123 show ?thesis by blast
qed


end
